theory Spec2Isabelle
  imports Main "HOL-Library.Sublist"
begin

section \<open>Go strings and the library functions the program calls\<close>

text \<open>
  A Go \<open>string\<close> is an immutable sequence of bytes; \<open>len\<close> counts bytes and
  \<open>s[i]\<close> reads a byte. It is modelled as \<open>string\<close> (a list of 8-bit \<open>char\<close>s),
  text outside ASCII being its UTF-8 bytes.
\<close>

text \<open>\<open>strings.HasPrefix(s, prefix)\<close>: \<open>len(s) >= len(prefix) && s[:len(prefix)] == prefix\<close>.\<close>

definition HasPrefix :: "string \<Rightarrow> string \<Rightarrow> bool" where
  "HasPrefix s pre = (length pre \<le> length s \<and> take (length pre) s = pre)"

text \<open>\<open>strings.HasSuffix(s, suffix)\<close>:
  \<open>len(s) >= len(suffix) && s[len(s)-len(suffix):] == suffix\<close>.\<close>

definition HasSuffix :: "string \<Rightarrow> string \<Rightarrow> bool" where
  "HasSuffix s suf = (length suf \<le> length s \<and> drop (length s - length suf) s = suf)"

text \<open>\<open>strings.Index(s, substr)\<close>: the byte index of the first occurrence of
  \<open>substr\<close> in \<open>s\<close>, or \<open>-1\<close>.\<close>

fun Index :: "string \<Rightarrow> string \<Rightarrow> int" where
  "Index [] substr = (if substr = [] then 0 else - 1)"
| "Index (c # s) substr =
     (if HasPrefix (c # s) substr then 0
      else (let r = Index s substr in if r < 0 then - 1 else r + 1))"

text \<open>\<open>strings.Contains(s, substr)\<close> is \<open>Index(s, substr) >= 0\<close>.\<close>

definition Contains :: "string \<Rightarrow> string \<Rightarrow> bool" where
  "Contains s substr = (0 \<le> Index s substr)"

text \<open>\<open>strings.Join(elems, sep)\<close>.\<close>

fun Join :: "string list \<Rightarrow> string \<Rightarrow> string" where
  "Join [] sep = []"
| "Join [x] sep = x"
| "Join (x # y # ys) sep = x @ sep @ Join (y # ys) sep"

text \<open>
  A slice expression \<open>a[lo:hi]\<close> on a slice whose capacity is its length: Go panics
  unless \<open>0 <= lo <= hi <= len(a)\<close>.
\<close>

definition slice :: "'a list \<Rightarrow> int \<Rightarrow> int \<Rightarrow> 'a list option" where
  "slice a lo hi =
     (if 0 \<le> lo \<and> lo \<le> hi \<and> hi \<le> int (length a)
      then Some (take (nat (hi - lo)) (drop (nat lo) a)) else None)"

subsection \<open>UTF-8 (\<open>unicode/utf8\<close>) and white space (\<open>unicode\<close>)\<close>

text \<open>
  A rune is a Unicode code point, here a natural number; a byte is read as a number
  with \<open>of_char\<close>. The masks and shifts of the library are written as arithmetic:
  \<open>b & 0x3F\<close> is \<open>b mod 64\<close>, \<open>x << 6\<close> is \<open>x * 64\<close>, \<open>r >> 6\<close> is \<open>r div 64\<close>,
  and \<open>|\<close> of values with disjoint bits is \<open>+\<close>.
\<close>

abbreviation byte :: "char \<Rightarrow> nat" where
  "byte c \<equiv> of_char c"

definition RuneError :: nat where
  "RuneError = 0xFFFD"

definition RuneSelf :: nat where
  "RuneSelf = 0x80"

text \<open>
  \<open>utf8.DecodeRuneInString(s)\<close>: the first rune of \<open>s\<close> and its width in bytes;
  \<open>(RuneError, 0)\<close> for the empty string and \<open>(RuneError, 1)\<close> where the bytes are
  not a valid encoding. The lead byte gives the size and the range accepted for the
  second byte (the library's tables \<open>first\<close> and \<open>acceptRanges\<close>).
\<close>

definition firstSize :: "nat \<Rightarrow> nat" where
  "firstSize s0 = (if s0 < 0xE0 then 2 else if s0 < 0xF0 then 3 else 4)"

definition acceptLo :: "nat \<Rightarrow> nat" where
  "acceptLo s0 = (if s0 = 0xE0 then 0xA0 else if s0 = 0xF0 then 0x90 else 0x80)"

definition acceptHi :: "nat \<Rightarrow> nat" where
  "acceptHi s0 = (if s0 = 0xED then 0x9F else if s0 = 0xF4 then 0x8F else 0xBF)"

definition DecodeRuneInString :: "string \<Rightarrow> nat \<times> nat" where
  "DecodeRuneInString s =
     (if length s < 1 then (RuneError, 0)
      else let s0 = byte (s ! 0) in
        if s0 < 0x80 then (s0, 1)
        else if s0 < 0xC2 \<or> 0xF4 < s0 then (RuneError, 1)
        else if length s < firstSize s0 then (RuneError, 1)
        else let s1 = byte (s ! 1) in
          if s1 < acceptLo s0 \<or> acceptHi s0 < s1 then (RuneError, 1)
          else if firstSize s0 \<le> 2 then ((s0 mod 32) * 64 + s1 mod 64, 2)
          else let s2 = byte (s ! 2) in
            if s2 < 0x80 \<or> 0xBF < s2 then (RuneError, 1)
            else if firstSize s0 \<le> 3
              then ((s0 mod 16) * 4096 + (s1 mod 64) * 64 + s2 mod 64, 3)
            else let s3 = byte (s ! 3) in
              if s3 < 0x80 \<or> 0xBF < s3 then (RuneError, 1)
              else ((s0 mod 8) * 262144 + (s1 mod 64) * 4096 + (s2 mod 64) * 64
                      + s3 mod 64, 4))"

text \<open>\<open>utf8.RuneStart(b)\<close>: \<open>b & 0xC0 != 0x80\<close>, the byte is not a continuation byte.\<close>

definition RuneStart :: "char \<Rightarrow> bool" where
  "RuneStart b = (\<not> (0x80 \<le> byte b \<and> byte b < 0xC0))"

text \<open>
  The loop of \<open>utf8.DecodeLastRuneInString\<close> that steps \<open>start\<close> back to a byte that
  can start a rune, not below \<open>lim\<close>.
\<close>

function backToRuneStart :: "string \<Rightarrow> int \<Rightarrow> int \<Rightarrow> int" where
  "backToRuneStart s start lim =
     (if start \<ge> lim then
        (if RuneStart (s ! nat start) then start else backToRuneStart s (start - 1) lim)
      else start)"
  by pat_completeness auto
termination
  by (relation "measure (\<lambda>(s, start, lim). nat (start - lim + 1))") auto

declare backToRuneStart.simps [simp del]

text \<open>\<open>utf8.DecodeLastRuneInString(s)\<close>: the last rune of \<open>s\<close> and its width.\<close>

definition DecodeLastRuneInString :: "string \<Rightarrow> nat \<times> nat" where
  "DecodeLastRuneInString s =
     (let end = int (length s) in
      if end = 0 then (RuneError, 0)
      else let start = end - 1; r = byte (s ! nat start) in
        if r < RuneSelf then (r, 1)
        else let lim = end - 4;
                 lim = (if lim < 0 then 0 else lim);
                 start = backToRuneStart s (start - 1) lim;
                 start = (if start < 0 then 0 else start);
                 (r, size) = DecodeRuneInString (drop (nat start) s)
             in if start + int size \<noteq> end then (RuneError, 1) else (r, size))"

text \<open>
  \<open>utf8.AppendRune\<close>, which \<open>strings.Builder.WriteRune\<close> appends to its buffer: the
  UTF-8 encoding of \<open>r\<close>, and that of \<open>RuneError\<close> when \<open>r\<close> is a surrogate or out of
  range.
\<close>

definition EncodeRune :: "nat \<Rightarrow> string" where
  "EncodeRune r =
     (if r \<le> 0x7F then [char_of r]
      else if r \<le> 0x7FF then [char_of (0xC0 + r div 64), char_of (0x80 + r mod 64)]
      else if r > 0x10FFFF \<or> (0xD800 \<le> r \<and> r \<le> 0xDFFF)
        then [CHR 0xEF, CHR 0xBF, CHR 0xBD]
      else if r \<le> 0xFFFF
        then [char_of (0xE0 + r div 4096), char_of (0x80 + (r div 64) mod 64),
              char_of (0x80 + r mod 64)]
      else [char_of (0xF0 + r div 262144), char_of (0x80 + (r div 4096) mod 64),
            char_of (0x80 + (r div 64) mod 64), char_of (0x80 + r mod 64)])"

text \<open>\<open>unicode.IsSpace(r)\<close>: the Latin-1 cases and the \<open>White_Space\<close> table.\<close>

definition IsSpace :: "nat \<Rightarrow> bool" where
  "IsSpace r =
     (if r \<le> 0xFF
      then r = 0x09 \<or> r = 0x0A \<or> r = 0x0B \<or> r = 0x0C \<or> r = 0x0D \<or> r = 0x20
           \<or> r = 0x85 \<or> r = 0xA0
      else r = 0x1680 \<or> (0x2000 \<le> r \<and> r \<le> 0x200A) \<or> r = 0x2028 \<or> r = 0x2029
           \<or> r = 0x202F \<or> r = 0x205F \<or> r = 0x3000)"

subsection \<open>Trimming (\<open>strings\<close>)\<close>

text \<open>
  \<open>indexFunc(s, f, truth)\<close>: \<open>for i, r := range s\<close>, the index of the first rune with
  \<open>f(r) == truth\<close>, or \<open>-1\<close>. The second argument is the loop index.
\<close>

function indexFuncFrom :: "string \<Rightarrow> nat \<Rightarrow> (nat \<Rightarrow> bool) \<Rightarrow> bool \<Rightarrow> int" where
  "indexFuncFrom s i f truth =
     (if i < length s then
        (let (r, w) = DecodeRuneInString (drop i s)
         in if f r = truth then int i else indexFuncFrom s (i + w) f truth)
      else - 1)"
  by pat_completeness auto
termination
proof (relation "measure (\<lambda>(s, i, f, truth). length s - i)")
  fix s :: string and i :: nat and f :: "nat \<Rightarrow> bool" and truth :: bool and x r w
  assume "i < length s" and "x = DecodeRuneInString (drop i s)" and "(r, w) = x"
  then have "0 < w"
    by (auto simp: DecodeRuneInString_def Let_def split: if_splits)
  with \<open>i < length s\<close>
  show "((s, i + w, f, truth), (s, i, f, truth)) \<in> measure (\<lambda>(s, i, f, truth). length s - i)"
    by simp
qed simp

declare indexFuncFrom.simps [simp del]

definition indexFunc :: "string \<Rightarrow> (nat \<Rightarrow> bool) \<Rightarrow> bool \<Rightarrow> int" where
  "indexFunc s f truth = indexFuncFrom s 0 f truth"

text \<open>
  \<open>lastIndexFunc(s, f, truth)\<close>: \<open>for i := len(s); i > 0; \<close> decoding the last rune of
  \<open>s[0:i]\<close> and stepping \<open>i\<close> back by its size. The argument of the recursive call is
  \<open>s[0:i]\<close>, whose length is the loop index.
\<close>

function lastIndexFunc :: "string \<Rightarrow> (nat \<Rightarrow> bool) \<Rightarrow> bool \<Rightarrow> int" where
  "lastIndexFunc s f truth =
     (if length s > 0 then
        (let (r, size) = DecodeLastRuneInString s;
             i = length s - size
         in if f r = truth then int i else lastIndexFunc (take i s) f truth)
      else - 1)"
  by pat_completeness auto
termination
proof (relation "measure (\<lambda>(s, f, truth). length s)")
  fix s :: string and f :: "nat \<Rightarrow> bool" and truth :: bool and x r size' i
  assume s: "0 < length s" and x: "x = DecodeLastRuneInString s" "(r, size') = x"
    and i: "i = length s - size'"
  have le_start: "backToRuneStart t a lim \<le> a" for t a lim
  proof (induction t a lim rule: backToRuneStart.induct)
    case (1 t start lim)
    then show ?case by (subst backToRuneStart.simps) auto
  qed
  have "0 < size'"
    using s x le_start [of s "int (length s) - 1 - 1"
        "if int (length s) - 4 < 0 then 0 else int (length s) - 4"]
    by (auto simp: DecodeLastRuneInString_def Let_def split: if_splits prod.splits)
  with s i show "((take i s, f, truth), (s, f, truth)) \<in> measure (\<lambda>(s, f, truth). length s)"
    by simp
qed simp

declare lastIndexFunc.simps [simp del]

definition TrimLeftFunc :: "string \<Rightarrow> (nat \<Rightarrow> bool) \<Rightarrow> string" where
  "TrimLeftFunc s f =
     (let i = indexFunc s f False in if i = - 1 then [] else drop (nat i) s)"

definition TrimRightFunc :: "string \<Rightarrow> (nat \<Rightarrow> bool) \<Rightarrow> string" where
  "TrimRightFunc s f =
     (let i = lastIndexFunc s f False;
          i = (if i \<ge> 0 \<and> byte (s ! nat i) \<ge> RuneSelf
               then i + int (snd (DecodeRuneInString (drop (nat i) s)))
               else i + 1)
      in take (nat i) s)"

definition TrimFunc :: "string \<Rightarrow> (nat \<Rightarrow> bool) \<Rightarrow> string" where
  "TrimFunc s f = TrimRightFunc (TrimLeftFunc s f) f"

text \<open>
  \<open>strings.TrimSpace(s)\<close>: \<open>s\<close> without its leading and trailing white space, as
  Unicode defines it; that is \<open>TrimFunc(s, unicode.IsSpace)\<close> (the library adds a fast
  path for ASCII that returns the same string).
\<close>

definition TrimSpace :: "string \<Rightarrow> string" where
  "TrimSpace s = TrimFunc s IsSpace"

section \<open>The sentence splitter (\<open>main.go\<close>)\<close>

text \<open>
  The state of the loop of \<open>splitSentences\<close>: the slice \<open>sentences\<close>, the contents of
  the builder \<open>sb\<close> and the counter \<open>parenLevel\<close>. The counter is a Go \<open>int\<close>; it
  changes by at most one for each byte of the text, so it stays within 64 bits and is
  modelled as an unbounded integer.
\<close>

record splitState =
  sentences :: "string list"
  sb :: string
  parenLevel :: int

text \<open>
  The body of \<open>for i, r := range text\<close>, at byte index \<open>i\<close> with rune \<open>r\<close>. Returning
  the state after the \<open>continue\<close> or at the end of the body.
\<close>

definition loopBody :: "string \<Rightarrow> nat \<Rightarrow> nat \<Rightarrow> splitState \<Rightarrow> splitState" where
  "loopBody text i r st =
     (let st = st\<lparr>sb := sb st @ EncodeRune r\<rparr>;
          st = (if r = byte CHR ''('' \<or> r = byte CHR ''['' \<or> r = byte CHR ''{''
                  then st\<lparr>parenLevel := parenLevel st + 1\<rparr>
                else if r = byte CHR '')'' \<or> r = byte CHR '']'' \<or> r = byte CHR ''}''
                  then st\<lparr>parenLevel := parenLevel st - 1\<rparr>
                else st)
      in if (r = byte CHR ''.'' \<or> r = byte CHR ''!'' \<or> r = byte CHR ''?'')
            \<and> parenLevel st = 0
         then
           (if r = byte CHR ''.'' \<and> i + 1 < length text \<and> text ! (i + 1) \<noteq> CHR '' ''
               \<and> text ! (i + 1) \<noteq> CHR 0x0A
            then st
            else let s = TrimSpace (sb st);
                     st = (if s \<noteq> [] then st\<lparr>sentences := sentences st @ [s]\<rparr> else st)
                 in st\<lparr>sb := []\<rparr>)
         else st)"

text \<open>
  The loop from byte index \<open>i\<close> on: \<open>range\<close> decodes the rune at \<open>i\<close> and moves on by
  its width, one byte where the encoding is invalid.
\<close>

function splitLoop :: "string \<Rightarrow> nat \<Rightarrow> splitState \<Rightarrow> splitState" where
  "splitLoop text i st =
     (if i < length text then
        (let (r, w) = DecodeRuneInString (drop i text)
         in splitLoop text (i + w) (loopBody text i r st))
      else st)"
  by pat_completeness auto
termination
proof (relation "measure (\<lambda>(text, i, st). length text - i)")
  fix t :: string and i :: nat and st :: splitState and x r w
  assume "i < length t" and "x = DecodeRuneInString (drop i t)" and "(r, w) = x"
  then have "0 < w"
    by (auto simp: DecodeRuneInString_def Let_def split: if_splits)
  with \<open>i < length t\<close>
  show "((t, i + w, loopBody t i r st), (t, i, st))
          \<in> measure (\<lambda>(t, i, st). length t - i)"
    by simp
qed simp

declare splitLoop.simps [simp del]

text \<open>The code after the loop: the rest of the buffer, trimmed, is the last sentence.\<close>

definition flushRest :: "splitState \<Rightarrow> string list" where
  "flushRest st =
     (if length (sb st) > 0 then
        (let s = TrimSpace (sb st)
         in if s \<noteq> [] then sentences st @ [s] else sentences st)
      else sentences st)"

definition splitSentences :: "string \<Rightarrow> string list" where
  "splitSentences text =
     flushRest (splitLoop text 0 \<lparr>sentences = [], sb = [], parenLevel = 0\<rparr>)"

subsection \<open>Notions used to state the properties of the splitter\<close>

text \<open>
  The bytes that \<open>for _, r := range s { sb.WriteRune(r) }\<close> writes for \<open>s\<close>: each rune
  of \<open>s\<close> encoded again, the replacement character \<open>U+FFFD\<close> for each invalid byte.
\<close>

function written :: "string \<Rightarrow> string" where
  "written s =
     (if s = [] then []
      else (let (r, w) = DecodeRuneInString s in EncodeRune r @ written (drop w s)))"
  by pat_completeness auto
termination
proof (relation "measure length")
  fix s :: string and x r w
  assume "s \<noteq> []" and "x = DecodeRuneInString s" and "(r, w) = x"
  then have "0 < w" and "0 < length s"
    by (auto simp: DecodeRuneInString_def Let_def split: if_splits)
  then show "(drop w s, s) \<in> measure length"
    by simp
qed simp

declare written.simps [simp del]

text \<open>
  \<open>utf8.ValidString(s)\<close>: \<open>s\<close> is valid UTF-8, that is, decoding it rune by rune never
  yields \<open>(RuneError, 1)\<close>.
\<close>

function ValidString :: "string \<Rightarrow> bool" where
  "ValidString s =
     (if s = [] then True
      else (let (r, w) = DecodeRuneInString s
            in \<not> (r = RuneError \<and> w = 1) \<and> ValidString (drop w s)))"
  by pat_completeness auto
termination
proof (relation "measure length")
  fix s :: string and x r w
  assume "s \<noteq> []" and "x = DecodeRuneInString s" and "(r, w) = x"
  then have "0 < w" and "0 < length s"
    by (auto simp: DecodeRuneInString_def Let_def split: if_splits)
  then show "(drop w s, s) \<in> measure length"
    by simp
qed simp

declare ValidString.simps [simp del]

text \<open>What the \<open>switch\<close> of the loop adds to the counter for a rune, and for a byte.\<close>

definition runeDelta :: "nat \<Rightarrow> int" where
  "runeDelta r =
     (if r = byte CHR ''('' \<or> r = byte CHR ''['' \<or> r = byte CHR ''{'' then 1
      else if r = byte CHR '')'' \<or> r = byte CHR '']'' \<or> r = byte CHR ''}'' then - 1
      else 0)"

definition bracketDelta :: "char \<Rightarrow> int" where
  "bracketDelta c = runeDelta (byte c)"

text \<open>
  The two example texts of the specification, as UTF-8 bytes: the Russian sentence
  "On skazal (eto. pravda.) vsyo." (49 bytes, its Cyrillic letters two bytes each) and
  the abbreviation "t.e. dalee" (17 bytes).
\<close>

definition example_parenthetical :: string where
  "example_parenthetical =
     [CHR 0xD0, CHR 0x9E, CHR 0xD0, CHR 0xBD, CHR 0x20, CHR 0xD1, CHR 0x81, CHR 0xD0, CHR 0xBA,
      CHR 0xD0, CHR 0xB0, CHR 0xD0, CHR 0xB7, CHR 0xD0, CHR 0xB0, CHR 0xD0, CHR 0xBB, CHR 0x20,
      CHR 0x28, CHR 0xD1, CHR 0x8D, CHR 0xD1, CHR 0x82, CHR 0xD0, CHR 0xBE, CHR 0x2E, CHR 0x20,
      CHR 0xD0, CHR 0xBF, CHR 0xD1, CHR 0x80, CHR 0xD0, CHR 0xB0, CHR 0xD0, CHR 0xB2, CHR 0xD0,
      CHR 0xB4, CHR 0xD0, CHR 0xB0, CHR 0x2E, CHR 0x29, CHR 0x20, CHR 0xD0, CHR 0xB2, CHR 0xD1,
      CHR 0x81, CHR 0xD1, CHR 0x91, CHR 0x2E]"

definition example_abbreviation :: string where
  "example_abbreviation =
     [CHR 0xD1, CHR 0x82, CHR 0x2E, CHR 0xD0, CHR 0xB5, CHR 0x2E, CHR 0x20, CHR 0xD0, CHR 0xB4,
      CHR 0xD0, CHR 0xB0, CHR 0xD0, CHR 0xBB, CHR 0xD0, CHR 0xB5, CHR 0xD0, CHR 0xB5]"

section \<open>The quote verifier (\<open>main.go\<close>)\<close>

record Quote =
  Text :: string
  Author :: string
  ContextBefore :: string
  ContextAfter :: string

text \<open>The zero value \<open>Quote{}\<close>.\<close>

definition zeroQuote :: Quote where
  "zeroQuote = \<lparr>Text = [], Author = [], ContextBefore = [], ContextAfter = []\<rparr>"

datatype panic = SliceBoundsOutOfRange

text \<open>
  The loop \<open>for i, s := range sentences\<close> of \<open>verifyAndExtractContext\<close>, from index
  \<open>i\<close> on; \<open>sents\<close> is the parameter \<open>sentences\<close>. The result is the pair the Go function returns, or the run-time panic of a
  slice expression.
\<close>

function verifyLoop :: "string list \<Rightarrow> string \<Rightarrow> string \<Rightarrow> nat \<Rightarrow> panic + Quote \<times> bool" where
  "verifyLoop sents quote author i =
     (if i < length sents then
        (if Contains (sents ! i) quote then
           (let start = int i - 2;
                start = (if start < 0 then 0 else start);
                end = int i + 3;
                end = (if end > int (length sents) then int (length sents) else end)
            in case (slice sents start (int i), slice sents (int i + 1) end) of
                 (Some before, Some after) \<Rightarrow>
                   Inr (\<lparr>Text = quote, Author = author,
                         ContextBefore = Join before '' '',
                         ContextAfter = Join after '' ''\<rparr>, True)
               | _ \<Rightarrow> Inl SliceBoundsOutOfRange)
         else verifyLoop sents quote author (i + 1))
      else Inr (zeroQuote, False))"
  by pat_completeness auto
termination
  by (relation "measure (\<lambda>(sents, quote, author, i). length sents - i)") auto

declare verifyLoop.simps [simp del]

definition verifyAndExtractContext :: "string list \<Rightarrow> string \<Rightarrow> string \<Rightarrow> panic + Quote \<times> bool" where
  "verifyAndExtractContext sents quote author = verifyLoop sents quote author 0"

section \<open>The output path (\<open>processFile\<close>, \<open>main.go\<close>)\<close>

text \<open>\<open>strings.TrimSuffix(s, suffix)\<close>: \<open>s\<close> without the trailing \<open>suffix\<close>, or \<open>s\<close>
  itself when it does not end in \<open>suffix\<close>.\<close>

definition TrimSuffix :: "string \<Rightarrow> string \<Rightarrow> string" where
  "TrimSuffix s suf = (if HasSuffix s suf then take (length s - length suf) s else s)"

text \<open>\<open>outputFile := strings.TrimSuffix(filePath, ".txt") + ".csv"\<close>.\<close>

definition outputFile :: "string \<Rightarrow> string" where
  "outputFile filePath = TrimSuffix filePath ''.txt'' @ ''.csv''"

text \<open>
  What the specification says of the output path, for comparison: the input path with
  its extension replaced. The extension of a path is the suffix that starts at the last
  dot of its last element (Go's \<open>filepath.Ext\<close>), empty when that element has no dot.
\<close>

fun extFrom :: "string \<Rightarrow> string \<Rightarrow> string" where
  "extFrom [] acc = []"
| "extFrom (c # rev_path) acc =
     (if c = CHR ''/'' then []
      else if c = CHR ''.'' then c # acc
      else extFrom rev_path (c # acc))"

definition spec_Ext :: "string \<Rightarrow> string" where
  "spec_Ext path = extFrom (rev path) []"

definition spec_replaceExt :: "string \<Rightarrow> string \<Rightarrow> string" where
  "spec_replaceExt path ext = take (length path - length (spec_Ext path)) path @ ext"

section \<open>Reading quotes back (\<open>rand/random_quote.go\<close>)\<close>

text \<open>
  The loop \<open>for i, record := range records[1:]\<close> of \<open>readQuotesFromCSV\<close>, with the
  slice \<open>quotes\<close> it appends to. A record of fewer than four fields is logged and
  skipped (the log line is not modelled).
\<close>

fun rangeRecords :: "string list list \<Rightarrow> Quote list \<Rightarrow> Quote list" where
  "rangeRecords [] quotes = quotes"
| "rangeRecords (record # rest) quotes =
     (if length record < 4 then rangeRecords rest quotes
      else rangeRecords rest
             (quotes @ [\<lparr>Text = record ! 0, Author = record ! 1,
                         ContextBefore = record ! 2, ContextAfter = record ! 3\<rparr>]))"

text \<open>
  The part of \<open>readQuotesFromCSV\<close> after \<open>reader.ReadAll()\<close> has returned \<open>records\<close>
  without an error: the header is skipped by the slice expression \<open>records[1:]\<close>, which
  panics on an empty \<open>records\<close>.
\<close>

definition quotesOfRecords :: "string list list \<Rightarrow> panic + Quote list" where
  "quotesOfRecords records =
     (case slice records 1 (int (length records)) of
        None \<Rightarrow> Inl SliceBoundsOutOfRange
      | Some rest \<Rightarrow> Inr (rangeRecords rest []))"

section \<open>Facts about the library functions\<close>

lemma HasPrefix_iff: "HasPrefix s pre \<longleftrightarrow> prefix pre s"
  unfolding HasPrefix_def prefix_def
  by (metis append_eq_conv_conj append_take_drop_id length_append le_add1)

lemma Index_nonneg_iff: "0 \<le> Index s sub \<longleftrightarrow> (\<exists>pre post. s = pre @ sub @ post)"
proof (induction s)
  case Nil
  then show ?case by auto
next
  case (Cons c s)
  show ?case
  proof (cases "HasPrefix (c # s) sub")
    case True
    then obtain post where "c # s = sub @ post"
      by (auto simp: HasPrefix_iff prefix_def)
    then have "\<exists>pre post. c # s = pre @ sub @ post"
      by (metis append_Nil)
    moreover have "0 \<le> Index (c # s) sub" using True by simp
    ultimately show ?thesis by blast
  next
    case False
    have "(\<exists>pre post. c # s = pre @ sub @ post) \<longleftrightarrow> (\<exists>pre post. s = pre @ sub @ post)"
    proof
      assume "\<exists>pre post. c # s = pre @ sub @ post"
      then obtain pre post where e: "c # s = pre @ sub @ post" by blast
      show "\<exists>pre post. s = pre @ sub @ post"
      proof (cases pre)
        case Nil
        with e have "prefix sub (c # s)" by (simp add: prefix_def)
        with False show ?thesis by (simp add: HasPrefix_iff)
      next
        case (Cons d pre')
        with e have "s = pre' @ sub @ post" by simp
        then show ?thesis by blast
      qed
    next
      assume "\<exists>pre post. s = pre @ sub @ post"
      then obtain pre post where "s = pre @ sub @ post" by blast
      then have "c # s = (c # pre) @ sub @ post" by simp
      then show "\<exists>pre post. c # s = pre @ sub @ post" by blast
    qed
    moreover have "0 \<le> Index (c # s) sub \<longleftrightarrow> 0 \<le> Index s sub"
      using False by (simp add: Let_def)
    ultimately show ?thesis using Cons.IH by blast
  qed
qed

lemma Contains_iff: "Contains s sub \<longleftrightarrow> (\<exists>pre post. s = pre @ sub @ post)"
  by (simp add: Contains_def Index_nonneg_iff)

subsection \<open>The decoder and the encoder\<close>

lemma mod_window: "k * n \<le> b \<Longrightarrow> b < k * n + n \<Longrightarrow> b mod n = b - k * n" for b k n :: nat
proof -
  assume a: "k * n \<le> b" "b < k * n + n"
  then have "b = (b - k * n) + k * n" by simp
  then have "b mod n = ((b - k * n) + k * n) mod n" by simp
  also have "\<dots> = (b - k * n) mod n" by (rule mod_mult_self1)
  also have "\<dots> = b - k * n" using a by (intro mod_less) simp
  finally show ?thesis .
qed

lemma mod_cont: "0x80 \<le> b \<Longrightarrow> b \<le> 0xBF \<Longrightarrow> b mod 64 = b - 128" for b :: nat
  using mod_window [of 2 64 b] by simp

lemma mod_lead2: "0xC0 \<le> a \<Longrightarrow> a < 0xE0 \<Longrightarrow> a mod 32 = a - 192" for a :: nat
  using mod_window [of 6 32 a] by simp

lemma mod_lead3: "0xE0 \<le> a \<Longrightarrow> a < 0xF0 \<Longrightarrow> a mod 16 = a - 224" for a :: nat
  using mod_window [of 14 16 a] by simp

lemma mod_lead4: "0xF0 \<le> a \<Longrightarrow> a < 0xF8 \<Longrightarrow> a mod 8 = a - 240" for a :: nat
  using mod_window [of 30 8 a] by simp

lemma Decode_ascii: "s \<noteq> [] \<Longrightarrow> byte (s ! 0) < 0x80 \<Longrightarrow> DecodeRuneInString s = (byte (s ! 0), 1)"
  by (simp add: DecodeRuneInString_def)

lemma Decode_two:
  assumes "2 \<le> length s" "0xC2 \<le> byte (s ! 0)" "byte (s ! 0) < 0xE0"
    "0x80 \<le> byte (s ! 1)" "byte (s ! 1) \<le> 0xBF"
  shows "DecodeRuneInString s = ((byte (s ! 0) - 192) * 64 + (byte (s ! 1) - 128), 2)"
proof -
  have "byte (s ! 0) mod 32 = byte (s ! 0) - 192" using assms by (intro mod_lead2) simp_all
  moreover have "byte (s ! 1) mod 64 = byte (s ! 1) - 128" using assms by (intro mod_cont) simp_all
  moreover have "s \<noteq> []" using assms(1) by auto
  ultimately show ?thesis
    using assms by (simp add: DecodeRuneInString_def firstSize_def acceptLo_def acceptHi_def)
qed

lemma Decode_three:
  assumes "3 \<le> length s" "0xE0 \<le> byte (s ! 0)" "byte (s ! 0) < 0xF0"
    "acceptLo (byte (s ! 0)) \<le> byte (s ! 1)" "byte (s ! 1) \<le> acceptHi (byte (s ! 0))"
    "0x80 \<le> byte (s ! 2)" "byte (s ! 2) \<le> 0xBF"
  shows "DecodeRuneInString s =
    ((byte (s ! 0) - 224) * 4096 + (byte (s ! 1) - 128) * 64 + (byte (s ! 2) - 128), 3)"
proof -
  have b1: "0x80 \<le> byte (s ! 1)" "byte (s ! 1) \<le> 0xBF"
    using assms(4,5) by (simp_all add: acceptLo_def acceptHi_def split: if_splits)
  have "byte (s ! 0) mod 16 = byte (s ! 0) - 224" using assms by (intro mod_lead3) simp_all
  moreover have "byte (s ! 1) mod 64 = byte (s ! 1) - 128" using b1 by (intro mod_cont) simp_all
  moreover have "byte (s ! 2) mod 64 = byte (s ! 2) - 128" using assms by (intro mod_cont) simp_all
  moreover have "s \<noteq> []" using assms(1) by auto
  ultimately show ?thesis
    using assms by (simp add: DecodeRuneInString_def firstSize_def not_less not_le)
qed

lemma Decode_four:
  assumes "4 \<le> length s" "0xF0 \<le> byte (s ! 0)" "byte (s ! 0) \<le> 0xF4"
    "acceptLo (byte (s ! 0)) \<le> byte (s ! 1)" "byte (s ! 1) \<le> acceptHi (byte (s ! 0))"
    "0x80 \<le> byte (s ! 2)" "byte (s ! 2) \<le> 0xBF" "0x80 \<le> byte (s ! 3)" "byte (s ! 3) \<le> 0xBF"
  shows "DecodeRuneInString s =
    ((byte (s ! 0) - 240) * 262144 + (byte (s ! 1) - 128) * 4096 + (byte (s ! 2) - 128) * 64
       + (byte (s ! 3) - 128), 4)"
proof -
  have b1: "0x80 \<le> byte (s ! 1)" "byte (s ! 1) \<le> 0xBF"
    using assms(4,5) by (simp_all add: acceptLo_def acceptHi_def split: if_splits)
  have "byte (s ! 0) mod 8 = byte (s ! 0) - 240" using assms by (intro mod_lead4) simp_all
  moreover have "byte (s ! 1) mod 64 = byte (s ! 1) - 128" using b1 by (intro mod_cont) simp_all
  moreover have "byte (s ! 2) mod 64 = byte (s ! 2) - 128" using assms by (intro mod_cont) simp_all
  moreover have "byte (s ! 3) mod 64 = byte (s ! 3) - 128" using assms by (intro mod_cont) simp_all
  moreover have "s \<noteq> []" using assms(1) by auto
  ultimately show ?thesis
    using assms by (simp add: DecodeRuneInString_def firstSize_def not_less not_le)
qed

lemma Decode_invalid:
  assumes "s \<noteq> []" "0x80 \<le> byte (s ! 0)"
    and "\<not> (2 \<le> length s \<and> 0xC2 \<le> byte (s ! 0) \<and> byte (s ! 0) < 0xE0 \<and>
            0x80 \<le> byte (s ! 1) \<and> byte (s ! 1) \<le> 0xBF)"
    and "\<not> (3 \<le> length s \<and> 0xE0 \<le> byte (s ! 0) \<and> byte (s ! 0) < 0xF0 \<and>
          acceptLo (byte (s ! 0)) \<le> byte (s ! 1) \<and> byte (s ! 1) \<le> acceptHi (byte (s ! 0)) \<and>
          0x80 \<le> byte (s ! 2) \<and> byte (s ! 2) \<le> 0xBF)"
    and "\<not> (4 \<le> length s \<and> 0xF0 \<le> byte (s ! 0) \<and> byte (s ! 0) \<le> 0xF4 \<and>
          acceptLo (byte (s ! 0)) \<le> byte (s ! 1) \<and> byte (s ! 1) \<le> acceptHi (byte (s ! 0)) \<and>
          0x80 \<le> byte (s ! 2) \<and> byte (s ! 2) \<le> 0xBF \<and> 0x80 \<le> byte (s ! 3) \<and> byte (s ! 3) \<le> 0xBF)"
  shows "DecodeRuneInString s = (RuneError, 1)"
proof -
  have len: "0 < length s" using assms(1) by simp
  show ?thesis
  proof (cases "byte (s ! 0) < 0xC2 \<or> 0xF4 < byte (s ! 0)")
    case True
    with assms(2) len show ?thesis by (simp add: DecodeRuneInString_def)
  next
    case lead: False
    show ?thesis
    proof (cases "length s < firstSize (byte (s ! 0))")
      case True
      with assms(2) len lead show ?thesis by (simp add: DecodeRuneInString_def)
    next
      case long: False
      show ?thesis
      proof (cases "byte (s ! 1) < acceptLo (byte (s ! 0)) \<or> acceptHi (byte (s ! 0)) < byte (s ! 1)")
        case True
        with assms(2) len lead long show ?thesis by (simp add: DecodeRuneInString_def)
      next
        case second: False
        have s1: "0x80 \<le> byte (s ! 1)" "byte (s ! 1) \<le> 0xBF"
          using second by (simp_all add: acceptLo_def acceptHi_def split: if_splits)
        have not2: "\<not> firstSize (byte (s ! 0)) \<le> 2"
          using assms(3) lead long s1 by (auto simp: firstSize_def split: if_splits)
        then have three: "3 \<le> length s" "0xE0 \<le> byte (s ! 0)"
          using long by (auto simp: firstSize_def split: if_splits)
        show ?thesis
        proof (cases "byte (s ! 2) < 0x80 \<or> 0xBF < byte (s ! 2)")
          case True
          with assms(2) len lead long second not2 show ?thesis
            by (simp add: DecodeRuneInString_def)
        next
          case third: False
          have not3: "\<not> firstSize (byte (s ! 0)) \<le> 3"
            using assms(4) three second third by (auto simp: firstSize_def split: if_splits)
          then have four: "4 \<le> length s" "0xF0 \<le> byte (s ! 0)"
            using long by (auto simp: firstSize_def split: if_splits)
          have "byte (s ! 3) < 0x80 \<or> 0xBF < byte (s ! 3)"
            using assms(5) four lead second third by auto
          with assms(2) len lead long second not2 third not3 show ?thesis
            by (simp add: DecodeRuneInString_def)
        qed
      qed
    qed
  qed
qed

lemma div_mod_digit:
  fixes q z n :: nat
  assumes "z < n"
  shows "(q * n + z) div n = q" and "(q * n + z) mod n = z"
  using assms by simp_all

lemma Encode_two:
  assumes "2 \<le> x" "x < 32" "y < 64"
  shows "EncodeRune (x * 64 + y) = [char_of (192 + x), char_of (128 + y)]"
proof -
  have "(x * 64 + y) div 64 = x" "(x * 64 + y) mod 64 = y"
    using assms div_mod_digit [of y 64 x] by simp_all
  moreover have "\<not> x * 64 + y \<le> 0x7F" "x * 64 + y \<le> 0x7FF" using assms by simp_all
  ultimately show ?thesis by (simp add: EncodeRune_def)
qed

lemma Encode_three:
  assumes "x < 16" "y < 64" "z < 64" "x = 0 \<longrightarrow> 32 \<le> y" "x = 13 \<longrightarrow> y < 32"
  shows "EncodeRune (x * 4096 + y * 64 + z) = [char_of (224 + x), char_of (128 + y), char_of (128 + z)]"
proof -
  define r where "r = x * 4096 + y * 64 + z"
  have r1: "r = (x * 64 + y) * 64 + z" and r2: "r = x * 4096 + (y * 64 + z)"
    by (simp_all add: r_def)
  have "r div 64 = x * 64 + y" and m0: "r mod 64 = z"
    using assms(3) div_mod_digit [of z 64 "x * 64 + y"] by (simp_all only: r1)
  moreover have "(x * 64 + y) mod 64 = y"
    using assms(2) div_mod_digit [of y 64 x] by simp
  moreover have "r div 4096 = x"
    using assms(2,3) div_mod_digit [of "y * 64 + z" 4096 x] by (simp only: r2)
  moreover have "\<not> r \<le> 0x7F" "\<not> r \<le> 0x7FF" "r \<le> 0xFFFF" "\<not> r > 0x10FFFF"
    using assms by (auto simp: r_def)
  moreover have sur: "\<not> (0xD800 \<le> r \<and> r \<le> 0xDFFF)"
  proof (cases "x = 13")
    case True
    with assms show ?thesis by (simp add: r_def)
  next
    case False
    then have "x \<le> 12 \<or> 14 \<le> x" by arith
    with assms show ?thesis by (auto simp: r_def)
  qed
  ultimately have "EncodeRune r = [char_of (224 + x), char_of (128 + y), char_of (128 + z)]"
    by (simp add: EncodeRune_def sur)
  then show ?thesis by (simp only: r_def)
qed

lemma Encode_four:
  assumes "x \<le> 4" "y < 64" "z < 64" "v < 64" "x = 0 \<longrightarrow> 16 \<le> y" "x = 4 \<longrightarrow> y < 16"
  shows "EncodeRune (x * 262144 + y * 4096 + z * 64 + v) =
    [char_of (240 + x), char_of (128 + y), char_of (128 + z), char_of (128 + v)]"
proof -
  define r where "r = x * 262144 + y * 4096 + z * 64 + v"
  have r1: "r = ((x * 64 + y) * 64 + z) * 64 + v"
    and r2: "r = (x * 64 + y) * 4096 + (z * 64 + v)"
    and r3: "r = x * 262144 + (y * 4096 + z * 64 + v)"
    by (simp_all add: r_def)
  have "r div 64 = (x * 64 + y) * 64 + z" and "r mod 64 = v"
    using assms(4) div_mod_digit [of v 64 "(x * 64 + y) * 64 + z"] by (simp_all only: r1)
  moreover have "((x * 64 + y) * 64 + z) mod 64 = z"
    using assms(3) div_mod_digit [of z 64 "x * 64 + y"] by simp
  moreover have "r div 4096 = x * 64 + y"
    using assms(3,4) div_mod_digit [of "z * 64 + v" 4096 "x * 64 + y"] by (simp only: r2)
  moreover have "(x * 64 + y) mod 64 = y"
    using assms(2) div_mod_digit [of y 64 x] by simp
  moreover have "r div 262144 = x"
    using assms(2,3,4) div_mod_digit [of "y * 4096 + z * 64 + v" 262144 x] by (simp only: r3)
  moreover have "\<not> r \<le> 0xFFFF"
  proof (cases "x = 0")
    case True
    with assms show ?thesis by (simp add: r_def)
  next
    case False
    then have "1 \<le> x" by arith
    then show ?thesis by (simp add: r_def)
  qed
  then have "\<not> r \<le> 0x7F" "\<not> r \<le> 0x7FF" "\<not> (0xD800 \<le> r \<and> r \<le> 0xDFFF)"
    by simp_all
  moreover note \<open>\<not> r \<le> 0xFFFF\<close>
  moreover have "\<not> r > 0x10FFFF"
  proof (cases "x = 4")
    case True
    with assms show ?thesis by (simp add: r_def)
  next
    case False
    with assms have "x \<le> 3" by arith
    with assms show ?thesis by (simp add: r_def)
  qed
  ultimately have "EncodeRune r =
      [char_of (240 + x), char_of (128 + y), char_of (128 + z), char_of (128 + v)]"
    by (simp add: EncodeRune_def)
  then show ?thesis by (simp only: r_def)
qed

lemma take_two: "2 \<le> length s \<Longrightarrow> take 2 s = [s ! 0, s ! 1]"
  by (cases s; cases "tl s") auto

lemma take_three: "3 \<le> length s \<Longrightarrow> take 3 s = [s ! 0, s ! 1, s ! 2]"
  by (cases s; cases "tl s"; cases "tl (tl s)") auto

lemma take_four: "4 \<le> length s \<Longrightarrow> take 4 s = [s ! 0, s ! 1, s ! 2, s ! 3]"
  by (cases s; cases "tl s"; cases "tl (tl s)"; cases "tl (tl (tl s))") auto

lemma char_of_add_sub: "k \<le> byte c \<Longrightarrow> char_of (k + (byte c - k)) = c"
  by simp

lemma Encode_ascii: "byte c < 0x80 \<Longrightarrow> EncodeRune (byte c) = [c]"
  by (simp add: EncodeRune_def)

lemma Encode_RuneError: "EncodeRune RuneError = [CHR 0xEF, CHR 0xBF, CHR 0xBD]"
  by (simp add: EncodeRune_def RuneError_def char_of_eq_iff)

lemma Decode_shape:
  assumes "s \<noteq> []"
  obtains (ascii) "byte (s ! 0) < 0x80" "DecodeRuneInString s = (byte (s ! 0), 1)"
  | (invalid) "0x80 \<le> byte (s ! 0)" "DecodeRuneInString s = (RuneError, 1)"
  | (multi) r w where "DecodeRuneInString s = (r, w)" "2 \<le> w" "w \<le> length s" "0x80 \<le> r"
      "\<forall>k<w. 0x80 \<le> byte (s ! k)" "EncodeRune r = take w s"
proof -
  let ?a = "byte (s ! 0)" and ?b = "byte (s ! 1)" and ?c = "byte (s ! 2)" and ?d = "byte (s ! 3)"
  let ?two = "2 \<le> length s \<and> 0xC2 \<le> ?a \<and> ?a < 0xE0 \<and> 0x80 \<le> ?b \<and> ?b \<le> 0xBF"
  let ?three = "3 \<le> length s \<and> 0xE0 \<le> ?a \<and> ?a < 0xF0 \<and> acceptLo ?a \<le> ?b
      \<and> ?b \<le> acceptHi ?a \<and> 0x80 \<le> ?c \<and> ?c \<le> 0xBF"
  let ?four = "4 \<le> length s \<and> 0xF0 \<le> ?a \<and> ?a \<le> 0xF4 \<and> acceptLo ?a \<le> ?b
      \<and> ?b \<le> acceptHi ?a \<and> 0x80 \<le> ?c \<and> ?c \<le> 0xBF \<and> 0x80 \<le> ?d \<and> ?d \<le> 0xBF"
  consider "?a < 0x80" | "0x80 \<le> ?a" "?two" | "0x80 \<le> ?a" "?three" | "0x80 \<le> ?a" "?four"
    | "0x80 \<le> ?a" "\<not> ?two" "\<not> ?three" "\<not> ?four"
    by linarith
  then show thesis
  proof cases
    case 1
    with assms show thesis by (intro ascii) (simp_all add: Decode_ascii)
  next
    case 2
    define x y where "x = ?a - 192" and "y = ?b - 128"
    from 2 have xy: "2 \<le> x" "x < 32" "y < 64" by (auto simp: x_def y_def)
    have dec: "DecodeRuneInString s = (x * 64 + y, 2)"
      using 2 by (simp add: Decode_two x_def y_def)
    have "EncodeRune (x * 64 + y) = [char_of (192 + x), char_of (128 + y)]"
      using xy by (rule Encode_two)
    also have "\<dots> = [s ! 0, s ! 1]"
      using 2 by (simp add: x_def y_def)
    also have "\<dots> = take 2 s" using 2 by (simp add: take_two)
    finally have enc: "EncodeRune (x * 64 + y) = take 2 s" .
    have bytes: "\<forall>k<2. 0x80 \<le> byte (s ! k)"
    proof (intro allI impI)
      fix k :: nat
      assume "k < 2"
      then consider "k = 0" | "k = 1" by linarith
      then show "0x80 \<le> byte (s ! k)" using 2 by cases auto
    qed
    show thesis
      using dec enc bytes 2 xy by (intro multi [of "x * 64 + y" 2]) simp_all
  next
    case 3
    define x y z where "x = ?a - 224" and "y = ?b - 128" and "z = ?c - 128"
    from 3 have b: "0x80 \<le> ?b" "?b \<le> 0xBF"
      by (auto simp: acceptLo_def acceptHi_def split: if_splits)
    from 3 b have xyz: "x < 16" "y < 64" "z < 64" by (auto simp: x_def y_def z_def)
    have x0: "x = 0 \<longrightarrow> 32 \<le> y" using 3 by (auto simp: x_def y_def acceptLo_def split: if_splits)
    have x13: "x = 13 \<longrightarrow> y < 32" using 3 by (auto simp: x_def y_def acceptHi_def split: if_splits)
    have dec: "DecodeRuneInString s = (x * 4096 + y * 64 + z, 3)"
      using 3 by (simp add: Decode_three x_def y_def z_def)
    have "EncodeRune (x * 4096 + y * 64 + z) = [char_of (224 + x), char_of (128 + y), char_of (128 + z)]"
      using xyz x0 x13 by (rule Encode_three)
    also have "\<dots> = [s ! 0, s ! 1, s ! 2]"
      using 3 b by (simp add: x_def y_def z_def)
    also have "\<dots> = take 3 s" using 3 by (simp add: take_three)
    finally have enc: "EncodeRune (x * 4096 + y * 64 + z) = take 3 s" .
    have bytes: "\<forall>k<3. 0x80 \<le> byte (s ! k)"
    proof (intro allI impI)
      fix k :: nat
      assume "k < 3"
      then consider "k = 0" | "k = 1" | "k = 2" by linarith
      then show "0x80 \<le> byte (s ! k)" using 3 b by cases auto
    qed
    have "0x80 \<le> x * 4096 + y * 64 + z" using x0 by (cases "x = 0") auto
    then show thesis
      using dec enc bytes 3 by (intro multi [of "x * 4096 + y * 64 + z" 3]) simp_all
  next
    case 4
    define x y z v where "x = ?a - 240" and "y = ?b - 128" and "z = ?c - 128" and "v = ?d - 128"
    from 4 have b: "0x80 \<le> ?b" "?b \<le> 0xBF"
      by (auto simp: acceptLo_def acceptHi_def split: if_splits)
    from 4 b have xyz: "x \<le> 4" "y < 64" "z < 64" "v < 64" by (auto simp: x_def y_def z_def v_def)
    have x0: "x = 0 \<longrightarrow> 16 \<le> y" using 4 by (auto simp: x_def y_def acceptLo_def split: if_splits)
    have x4: "x = 4 \<longrightarrow> y < 16" using 4 by (auto simp: x_def y_def acceptHi_def split: if_splits)
    have dec: "DecodeRuneInString s = (x * 262144 + y * 4096 + z * 64 + v, 4)"
      using 4 by (simp add: Decode_four x_def y_def z_def v_def)
    have "EncodeRune (x * 262144 + y * 4096 + z * 64 + v) =
        [char_of (240 + x), char_of (128 + y), char_of (128 + z), char_of (128 + v)]"
      using xyz x0 x4 by (rule Encode_four)
    also have "\<dots> = [s ! 0, s ! 1, s ! 2, s ! 3]"
      using 4 b by (simp add: x_def y_def z_def v_def)
    also have "\<dots> = take 4 s" using 4 by (simp add: take_four)
    finally have enc: "EncodeRune (x * 262144 + y * 4096 + z * 64 + v) = take 4 s" .
    have bytes: "\<forall>k<4. 0x80 \<le> byte (s ! k)"
    proof (intro allI impI)
      fix k :: nat
      assume "k < 4"
      then consider "k = 0" | "k = 1" | "k = 2" | "k = 3" by linarith
      then show "0x80 \<le> byte (s ! k)" using 4 b by cases auto
    qed
    have "0x80 \<le> x * 262144 + y * 4096 + z * 64 + v" using x0 by (cases "x = 0") auto
    then show thesis
      using dec enc bytes 4 by (intro multi [of "x * 262144 + y * 4096 + z * 64 + v" 4]) simp_all
  next
    case 5
    with assms have "DecodeRuneInString s = (RuneError, 1)"
      by (intro Decode_invalid) simp_all
    with 5 show thesis by (intro invalid) simp_all
  qed
qed

subsection \<open>The loop of the splitter\<close>

lemma TrimSpace_Nil: "TrimSpace [] = []"
  by (simp add: TrimSpace_def TrimFunc_def TrimLeftFunc_def TrimRightFunc_def indexFunc_def
      indexFuncFrom.simps lastIndexFunc.simps)

lemma flushRest_eq:
  "flushRest st = sentences st @ filter (\<lambda>s. s \<noteq> []) [TrimSpace (sb st)]"
  by (simp add: flushRest_def Let_def TrimSpace_Nil)

lemma loopBody_level:
  "loopBody t i r st =
     (let st' = st\<lparr>sb := sb st @ EncodeRune r, parenLevel := parenLevel st + runeDelta r\<rparr>
      in if (r = byte CHR ''.'' \<or> r = byte CHR ''!'' \<or> r = byte CHR ''?'') \<and> parenLevel st' = 0
         then
           (if r = byte CHR ''.'' \<and> i + 1 < length t \<and> t ! (i + 1) \<noteq> CHR '' ''
               \<and> t ! (i + 1) \<noteq> CHR 0x0A
            then st'
            else \<lparr>sentences = sentences st @ filter (\<lambda>s. s \<noteq> []) [TrimSpace (sb st')],
                  sb = [], parenLevel = parenLevel st'\<rparr>)
         else st')"
  by (simp add: loopBody_def runeDelta_def Let_def)


lemma written_Nil: "written [] = []"
  by (subst written.simps) simp

lemma written_step:
  "s \<noteq> [] \<Longrightarrow> written s =
     EncodeRune (fst (DecodeRuneInString s)) @ written (drop (snd (DecodeRuneInString s)) s)"
  by (subst written.simps) (simp add: case_prod_beta)

lemma splitLoop_step:
  "i < length t \<Longrightarrow> splitLoop t i st =
     splitLoop t (i + snd (DecodeRuneInString (drop i t)))
       (loopBody t i (fst (DecodeRuneInString (drop i t))) st)"
  by (subst splitLoop.simps) (simp add: case_prod_beta)

lemma splitLoop_done: "length t \<le> i \<Longrightarrow> splitLoop t i st = st"
  by (subst splitLoop.simps) simp

lemma Decode_width:
  assumes "s \<noteq> []"
  shows "0 < snd (DecodeRuneInString s)" and "snd (DecodeRuneInString s) \<le> length s"
proof -
  from assms have len: "0 < length s" by simp
  have "0 < snd (DecodeRuneInString s) \<and> snd (DecodeRuneInString s) \<le> length s"
    using assms
  proof (cases rule: Decode_shape)
    case ascii
    with len show ?thesis by (simp add: Suc_le_eq)
  next
    case invalid
    with len show ?thesis by (simp add: Suc_le_eq)
  next
    case (multi r w)
    from multi(2,3) show ?thesis by (simp add: multi(1))
  qed
  then show "0 < snd (DecodeRuneInString s)" and "snd (DecodeRuneInString s) \<le> length s"
    by blast+
qed

lemma runeDelta_nonascii: "0x80 \<le> r \<Longrightarrow> runeDelta r = 0"
  by (simp add: runeDelta_def)

lemma Decode_delta:
  assumes "s \<noteq> []"
  shows "runeDelta (fst (DecodeRuneInString s)) =
           sum_list (map bracketDelta (take (snd (DecodeRuneInString s)) s))"
  using assms
proof (cases rule: Decode_shape)
  case ascii
  moreover have "take 1 s = [s ! 0]" using assms by (cases s) simp_all
  ultimately show ?thesis by (simp add: bracketDelta_def)
next
  case invalid
  moreover have "take 1 s = [s ! 0]" using assms by (cases s) simp_all
  ultimately show ?thesis
    by (simp add: bracketDelta_def runeDelta_nonascii RuneError_def)
next
  case (multi r w)
  have "bracketDelta b = 0" if "b \<in> set (take w s)" for b
  proof -
    from that obtain k where "k < w" "k < length s" "b = s ! k"
      by (auto simp: in_set_conv_nth)
    with multi(5) show ?thesis by (simp add: bracketDelta_def runeDelta_nonascii)
  qed
  then have "sum_list (map bracketDelta (take w s)) = sum_list (map (\<lambda>_. 0 :: int) (take w s))"
    by (intro arg_cong [where f = sum_list] map_cong) simp_all
  then have "sum_list (map bracketDelta (take w s)) = 0" by simp
  with multi show ?thesis by (simp add: runeDelta_nonascii)
qed

lemma loopBody_shape:
  "(sentences (loopBody t i r st) = sentences st
      \<and> sb (loopBody t i r st) = sb st @ EncodeRune r)
   \<or> (sentences (loopBody t i r st) =
         sentences st @ filter (\<lambda>s. s \<noteq> []) [TrimSpace (sb st @ EncodeRune r)]
      \<and> sb (loopBody t i r st) = [])"
  by (simp add: loopBody_level Let_def)

lemma splitLoop_segments:
  "\<exists>segs. concat segs = sb st @ written (drop i t)
     \<and> flushRest (splitLoop t i st) = sentences st @ filter (\<lambda>s. s \<noteq> []) (map TrimSpace segs)"
proof (induction t i st rule: splitLoop.induct)
  case (1 t i st)
  show ?case
  proof (cases "i < length t")
    case False
    then have "splitLoop t i st = st" and "drop i t = []"
      by (simp_all add: splitLoop_done)
    then have "concat [sb st] = sb st @ written (drop i t)
        \<and> flushRest (splitLoop t i st) = sentences st @ filter (\<lambda>s. s \<noteq> []) (map TrimSpace [sb st])"
      by (simp add: written_Nil flushRest_eq)
    then show ?thesis by blast
  next
    case True
    define r w where "r = fst (DecodeRuneInString (drop i t))"
      and "w = snd (DecodeRuneInString (drop i t))"
    define st' where "st' = loopBody t i r st"
    have dec: "(r, w) = DecodeRuneInString (drop i t)" by (simp add: r_def w_def)
    from "1.IH" [OF True refl dec] obtain segs where
      segs: "concat segs = sb st' @ written (drop (i + w) t)"
        "flushRest (splitLoop t (i + w) st') =
           sentences st' @ filter (\<lambda>s. s \<noteq> []) (map TrimSpace segs)"
      unfolding st'_def by blast
    have step: "splitLoop t i st = splitLoop t (i + w) st'"
      using True by (simp add: splitLoop_step r_def w_def st'_def)
    have wr: "written (drop i t) = EncodeRune r @ written (drop (i + w) t)"
      using True written_step [of "drop i t"] by (simp add: r_def w_def add.commute)
    consider (go) "sentences st' = sentences st" "sb st' = sb st @ EncodeRune r"
      | (cut) "sentences st' = sentences st @ filter (\<lambda>s. s \<noteq> []) [TrimSpace (sb st @ EncodeRune r)]"
          "sb st' = []"
      using loopBody_shape [of t i r st] unfolding st'_def by blast
    then show ?thesis
    proof cases
      case go
      with segs step wr have "concat segs = sb st @ written (drop i t)
        \<and> flushRest (splitLoop t i st) = sentences st @ filter (\<lambda>s. s \<noteq> []) (map TrimSpace segs)"
        by simp
      then show ?thesis by blast
    next
      case cut
      with segs step wr have "concat ((sb st @ EncodeRune r) # segs) = sb st @ written (drop i t)
        \<and> flushRest (splitLoop t i st) =
            sentences st @ filter (\<lambda>s. s \<noteq> []) (map TrimSpace ((sb st @ EncodeRune r) # segs))"
        by simp
      then show ?thesis by blast
    qed
  qed
qed

lemma splitLoop_suppressed:
  "(\<And>k. i < k \<Longrightarrow> k \<le> length t \<Longrightarrow>
      parenLevel st + sum_list (map bracketDelta (take (k - i) (drop i t))) \<noteq> 0)
   \<Longrightarrow> splitLoop t i st =
        st\<lparr>sb := sb st @ written (drop i t),
           parenLevel := parenLevel st + sum_list (map bracketDelta (drop i t))\<rparr>"
proof (induction t i st rule: splitLoop.induct)
  case (1 t i st)
  show ?case
  proof (cases "i < length t")
    case False
    then show ?thesis by (simp add: splitLoop_done written_Nil)
  next
    case True
    define s where "s = drop i t"
    define r w where "r = fst (DecodeRuneInString s)" and "w = snd (DecodeRuneInString s)"
    define d where "d = sum_list (map bracketDelta (take w s))"
    define st' where "st' = st\<lparr>sb := sb st @ EncodeRune r, parenLevel := parenLevel st + d\<rparr>"
    have s: "s \<noteq> []" using True by (simp add: s_def)
    have dec: "(r, w) = DecodeRuneInString (drop i t)" by (simp add: r_def w_def s_def)
    have w: "0 < w" "w \<le> length s" using Decode_width [OF s] by (simp_all add: w_def)
    have delta: "runeDelta r = d" using Decode_delta [OF s] by (simp add: r_def w_def d_def)
    have "parenLevel st + d \<noteq> 0"
      using "1.prems" [of "i + w"] w True by (simp add: d_def s_def)
    then have body: "loopBody t i r st = st'"
      by (simp add: loopBody_level delta st'_def)
    have step: "splitLoop t i st = splitLoop t (i + w) st'"
      using True body by (simp add: splitLoop_step r_def w_def s_def)
    have split: "take (k - i) s = take w s @ take (k - (i + w)) (drop w s)" if "i + w < k" for k
    proof -
      from that have "k - i = w + (k - (i + w))" by simp
      then show ?thesis by (simp only: take_add)
    qed
    have "splitLoop t (i + w) st' =
        st'\<lparr>sb := sb st' @ written (drop (i + w) t),
            parenLevel := parenLevel st' + sum_list (map bracketDelta (drop (i + w) t))\<rparr>"
    proof (rule "1.IH" [OF True refl dec, unfolded body])
      fix k
      assume k: "i + w < k" "k \<le> length t"
      then have "parenLevel st + sum_list (map bracketDelta (take (k - i) s)) \<noteq> 0"
        using "1.prems" [of k] by (simp add: s_def)
      then have "parenLevel st + (d + sum_list (map bracketDelta (take (k - (i + w)) (drop w s))))
          \<noteq> 0"
        by (simp add: split [OF k(1)] d_def)
      moreover have "drop w s = drop (i + w) t" by (simp add: s_def add.commute)
      ultimately
      show "parenLevel st' + sum_list (map bracketDelta (take (k - (i + w)) (drop (i + w) t))) \<noteq> 0"
        by (simp add: st'_def)
    qed
    moreover have "written s = EncodeRune r @ written (drop w s)"
      using written_step [OF s] by (simp add: r_def w_def)
    moreover have "sum_list (map bracketDelta s) = d + sum_list (map bracketDelta (drop w s))"
      unfolding d_def by (metis append_take_drop_id map_append sum_list.append)
    moreover have "drop w s = drop (i + w) t" by (simp add: s_def add.commute)
    ultimately show ?thesis
      using step by (simp add: st'_def s_def [symmetric])
  qed
qed

lemma written_valid: "ValidString s \<Longrightarrow> written s = s"
proof (induction s rule: written.induct)
  case (1 s)
  show ?case
  proof (cases "s = []")
    case True
    then show ?thesis by (simp add: written_Nil)
  next
    case False
    define r w where "r = fst (DecodeRuneInString s)" and "w = snd (DecodeRuneInString s)"
    have dec: "(r, w) = DecodeRuneInString s" by (simp add: r_def w_def)
    from "1.prems" False have ok: "\<not> (r = RuneError \<and> w = 1)" and rest: "ValidString (drop w s)"
      by (subst (asm) ValidString.simps, simp add: case_prod_beta r_def w_def)+
    have "written (drop w s) = drop w s"
      using "1.IH" [OF False refl dec rest] .
    moreover have "EncodeRune r = take w s"
      using False
    proof (cases rule: Decode_shape)
      case ascii
      moreover have "take 1 s = [s ! 0]" using False by (cases s) simp_all
      ultimately show ?thesis by (simp add: r_def w_def Encode_ascii)
    next
      case invalid
      with ok show ?thesis by (simp add: r_def w_def)
    next
      case (multi r' w')
      then show ?thesis by (simp add: r_def w_def)
    qed
    ultimately show ?thesis
      using written_step [OF False] by (simp add: r_def w_def)
  qed
qed

lemma TrimSpace_take_drop: "\<exists>m n. TrimSpace s = take n (drop m s)"
proof (cases "indexFunc s IsSpace False = - 1")
  case True
  then have "TrimSpace s = take 0 (drop 0 s)"
    by (simp add: TrimSpace_def TrimFunc_def TrimLeftFunc_def TrimRightFunc_def Let_def)
  then show ?thesis by blast
next
  case False
  then show ?thesis
    by (simp add: TrimSpace_def TrimFunc_def TrimLeftFunc_def TrimRightFunc_def Let_def) blast
qed

lemma sublist_TrimSpace: "sublist (TrimSpace s) s"
proof -
  obtain m n where "TrimSpace s = take n (drop m s)"
    using TrimSpace_take_drop by blast
  moreover have "s = take m s @ take n (drop m s) @ drop n (drop m s)"
    by (simp only: append_take_drop_id)
  ultimately show ?thesis unfolding sublist_def by metis
qed

lemma sublist_concat: "seg \<in> set segs \<Longrightarrow> sublist seg (concat segs)"
proof -
  assume "seg \<in> set segs"
  then obtain xs ys where "segs = xs @ seg # ys" by (auto simp: in_set_conv_decomp)
  then have "concat segs = concat xs @ seg @ concat ys" by simp
  then show ?thesis unfolding sublist_def by blast
qed

lemma take_drop_map_nth:
  "a \<le> b \<Longrightarrow> b \<le> length xs \<Longrightarrow> take (b - a) (drop a xs) = map ((!) xs) [a..<b]"
proof (rule nth_equalityI)
  show "length (take (b - a) (drop a xs)) = length (map ((!) xs) [a..<b])"
    if "a \<le> b" "b \<le> length xs"
    using that by simp
next
  fix i
  assume "a \<le> b" and "b \<le> length xs" and "i < length (take (b - a) (drop a xs))"
  then have "i < b - a" and "a + i \<le> length xs" by simp_all
  then show "take (b - a) (drop a xs) ! i = map ((!) xs) [a..<b] ! i"
    by simp
qed

section \<open>The quote verifier: the first match and its context\<close>

lemma verifyLoop_none:
  "(\<And>j. i \<le> j \<Longrightarrow> j < length sents \<Longrightarrow> \<not> Contains (sents ! j) quote)
   \<Longrightarrow> verifyLoop sents quote author i = Inr (zeroQuote, False)"
proof (induction "length sents - i" arbitrary: i)
  case 0
  then show ?case by (subst verifyLoop.simps) simp
next
  case (Suc n)
  then have "i < length sents" by simp
  moreover have "\<not> Contains (sents ! i) quote"
    using Suc.prems \<open>i < length sents\<close> by simp
  moreover have "verifyLoop sents quote author (i + 1) = Inr (zeroQuote, False)"
    using Suc.hyps Suc.prems by (intro Suc.hyps(1)) auto
  ultimately show ?case by (subst verifyLoop.simps) simp
qed

lemma verifyLoop_match:
  assumes "k < length sents" and "Contains (sents ! k) quote"
  shows "verifyLoop sents quote author k =
           Inr (\<lparr>Text = quote, Author = author,
                 ContextBefore = Join (map ((!) sents) [k - 2..<k]) '' '',
                 ContextAfter =
                   Join (map ((!) sents) [k + 1..<min (length sents) (k + 3)]) '' ''\<rparr>, True)"
proof -
  let ?start = "if int k - 2 < 0 then 0 else int k - 2"
  let ?end = "if int k + 3 > int (length sents) then int (length sents) else int k + 3"
  have start: "nat ?start = k - 2" by auto
  have finish: "nat ?end = min (length sents) (k + 3)" by auto
  have "slice sents ?start (int k) = Some (take (k - (k - 2)) (drop (k - 2) sents))"
    using assms(1) unfolding slice_def by (auto simp: nat_diff_distrib')
  also have "take (k - (k - 2)) (drop (k - 2) sents) = map ((!) sents) [k - 2..<k]"
    using assms(1) by (intro take_drop_map_nth) auto
  finally have before: "slice sents ?start (int k) = Some (map ((!) sents) [k - 2..<k])" .
  have "slice sents (int k + 1) ?end =
          Some (take (min (length sents) (k + 3) - (k + 1)) (drop (k + 1) sents))"
    using assms(1) unfolding slice_def by (auto simp: nat_diff_distrib' nat_add_distrib min_def)
  also have "take (min (length sents) (k + 3) - (k + 1)) (drop (k + 1) sents) =
               map ((!) sents) [k + 1..<min (length sents) (k + 3)]"
    using assms(1) by (intro take_drop_map_nth) auto
  finally have after: "slice sents (int k + 1) ?end =
      Some (map ((!) sents) [k + 1..<min (length sents) (k + 3)])" .
  show ?thesis
    using assms before after by (subst verifyLoop.simps) (simp add: Let_def)
qed

lemma verifyLoop_first:
  assumes "i \<le> k" and "k < length sents" and "Contains (sents ! k) quote"
    and "\<And>j. i \<le> j \<Longrightarrow> j < k \<Longrightarrow> \<not> Contains (sents ! j) quote"
  shows "verifyLoop sents quote author i = verifyLoop sents quote author k"
  using assms
proof (induction "k - i" arbitrary: i)
  case 0
  then show ?case by simp
next
  case (Suc n)
  then have "i < k" by simp
  then have "i < length sents" and "\<not> Contains (sents ! i) quote"
    using Suc.prems by auto
  then have "verifyLoop sents quote author i = verifyLoop sents quote author (i + 1)"
    by (subst verifyLoop.simps) simp
  also have "\<dots> = verifyLoop sents quote author k"
    using Suc.hyps(2) Suc.prems \<open>i < k\<close> by (intro Suc.hyps(1)) auto
  finally show ?case .
qed

text \<open>
  Claim C1. If some sentence contains the quote as a (byte-exact, so case-sensitive)
  substring, \<open>verifyAndExtractContext\<close> returns \<open>true\<close> and a Quote built at the first
  such index \<open>i\<close>: \<open>Text\<close> and \<open>Author\<close> are the arguments, \<open>ContextBefore\<close> is the
  sentences at the indices \<open>max(0, i-2), ..., i-1\<close> joined by one space and
  \<open>ContextAfter\<close> the sentences at \<open>i+1, ..., min(len, i+3)-1\<close> joined by one space.
  Neither range contains \<open>i\<close>, so the matched sentence is in neither field; at \<open>i = 0\<close>
  the first field is empty and at the last index the second one is.
\<close>

theorem verifyAndExtractContext_found:
  assumes "\<exists>s \<in> set sents. \<exists>pre post. s = pre @ quote @ post"
  shows "\<exists>i q. i < length sents
           \<and> (\<exists>pre post. sents ! i = pre @ quote @ post)
           \<and> (\<forall>j<i. \<not> (\<exists>pre post. sents ! j = pre @ quote @ post))
           \<and> verifyAndExtractContext sents quote author = Inr (q, True)
           \<and> Text q = quote \<and> Author q = author
           \<and> ContextBefore q = Join (map ((!) sents) [nat (max 0 (int i - 2))..<i]) '' ''
           \<and> ContextAfter q = Join (map ((!) sents) [i + 1..<min (length sents) (i + 3)]) '' ''
           \<and> i \<notin> set [nat (max 0 (int i - 2))..<i]
           \<and> i \<notin> set [i + 1..<min (length sents) (i + 3)]
           \<and> (i = 0 \<longrightarrow> ContextBefore q = [])
           \<and> (i = length sents - 1 \<longrightarrow> ContextAfter q = [])"
proof -
  let ?P = "\<lambda>j. j < length sents \<and> Contains (sents ! j) quote"
  from assms have "\<exists>j. ?P j"
    by (metis Contains_iff in_set_conv_nth)
  then obtain i where i: "?P i" and least: "\<And>j. j < i \<Longrightarrow> \<not> ?P j"
    using exists_least_iff [of ?P] by blast
  define q where "q = \<lparr>Text = quote, Author = author,
      ContextBefore = Join (map ((!) sents) [i - 2..<i]) '' '',
      ContextAfter = Join (map ((!) sents) [i + 1..<min (length sents) (i + 3)]) '' ''\<rparr>"
  have "verifyLoop sents quote author 0 = verifyLoop sents quote author i"
    using i least by (intro verifyLoop_first) auto
  then have res: "verifyAndExtractContext sents quote author = Inr (q, True)"
    using i by (simp add: verifyAndExtractContext_def verifyLoop_match q_def)
  have idx: "nat (max 0 (int i - 2)) = i - 2" by auto
  have "\<forall>j<i. \<not> (\<exists>pre post. sents ! j = pre @ quote @ post)"
    using least i by (metis Contains_iff less_trans)
  moreover have "\<exists>pre post. sents ! i = pre @ quote @ post"
    using i by (simp add: Contains_iff)
  moreover have "i = length sents - 1 \<longrightarrow> ContextAfter q = []"
    using i by (auto simp: q_def)
  ultimately show ?thesis
    using i res by (intro exI [of _ i] exI [of _ q]) (simp add: idx q_def)
qed

theorem verifyAndExtractContext_found_witness:
  "(\<exists>s \<in> set [''One.'', ''Two b.'', ''Three c!'', ''Four c?'', ''Five.'', ''Six.''].
        \<exists>pre post. s = pre @ ''c'' @ post)
   \<and> (\<exists>i q. i < length [''One.'', ''Two b.'', ''Three c!'', ''Four c?'', ''Five.'', ''Six.'']
        \<and> verifyAndExtractContext [''One.'', ''Two b.'', ''Three c!'', ''Four c?'', ''Five.'', ''Six.'']
              ''c'' ''A'' = Inr (q, True)
        \<and> ContextBefore q =
            Join (map ((!) [''One.'', ''Two b.'', ''Three c!'', ''Four c?'', ''Five.'', ''Six.''])
                    [nat (max 0 (int i - 2))..<i]) '' '')"
proof -
  have "(''Three c!'' :: string) = ''Three '' @ ''c'' @ ''!''" by simp
  then have h: "\<exists>s \<in> set [''One.'', ''Two b.'', ''Three c!'', ''Four c?'', ''Five.'', ''Six.''].
      \<exists>pre post. s = pre @ ''c'' @ post"
    by (metis list.set_intros(1) list.set_intros(2))
  from verifyAndExtractContext_found [OF h, of "''A''"] h show ?thesis by blast
qed

text \<open>
  Claim C5. If no sentence contains the quote as a substring,
  \<open>verifyAndExtractContext\<close> returns the zero Quote and \<open>false\<close>; it does not panic.
\<close>

theorem verifyAndExtractContext_not_found:
  assumes "\<forall>s \<in> set sents. \<not> (\<exists>pre post. s = pre @ quote @ post)"
  shows "verifyAndExtractContext sents quote author = Inr (zeroQuote, False)"
  unfolding verifyAndExtractContext_def
  using assms by (intro verifyLoop_none) (simp add: Contains_iff)

theorem verifyAndExtractContext_not_found_witness:
  "\<not> (\<exists>s \<in> set [''ab'', ''cd'']. \<exists>pre post. s = pre @ ''x'' @ post)
   \<and> verifyAndExtractContext [''ab'', ''cd''] ''x'' ''A'' = Inr (zeroQuote, False)"
proof -
  have "\<not> Contains ''ab'' ''x''" and "\<not> Contains ''cd'' ''x''"
    by (simp_all add: Contains_def HasPrefix_def)
  then have h: "\<forall>s \<in> set [''ab'', ''cd'']. \<not> (\<exists>pre post. s = pre @ ''x'' @ post)"
    by (simp add: Contains_iff)
  from verifyAndExtractContext_not_found [OF h, of "''A''"] h show ?thesis by blast
qed

section \<open>The output path\<close>

lemma TrimSuffix_append: "TrimSuffix (base @ suf) suf = base"
  by (simp add: TrimSuffix_def HasSuffix_def)

lemma TrimSuffix_no_suffix: "\<not> suffix suf s \<Longrightarrow> TrimSuffix s suf = s"
  by (auto simp: TrimSuffix_def HasSuffix_def suffix_def)
    (metis append_take_drop_id)

text \<open>
  Claim C4, as stated, fails: the extension is not replaced unless it is \<open>.txt\<close>. For
  the input path \<open>notes.md\<close> the program writes to \<open>notes.md.csv\<close>, where replacing
  the extension gives \<open>notes.csv\<close>.
\<close>

theorem outputFile_extension_counterexample:
  "outputFile ''notes.md'' = ''notes.md.csv''
   \<and> spec_replaceExt ''notes.md'' ''.csv'' = ''notes.csv''
   \<and> outputFile ''notes.md'' \<noteq> spec_replaceExt ''notes.md'' ''.csv''"
  by (simp add: outputFile_def TrimSuffix_def HasSuffix_def spec_replaceExt_def spec_Ext_def)

text \<open>
  Claim C4, amended. The output path is the input path with a trailing \<open>.txt\<close> removed,
  when it has one, and \<open>.csv\<close> appended: \<open>.txt\<close> is replaced by \<open>.csv\<close>, and a path
  that does not end in \<open>.txt\<close> gets \<open>.csv\<close> appended to it whole.
\<close>

theorem outputFile_txt_or_append:
  "outputFile (base @ ''.txt'') = base @ ''.csv''
   \<and> (\<not> suffix ''.txt'' filePath \<longrightarrow> outputFile filePath = filePath @ ''.csv'')"
  by (simp add: outputFile_def TrimSuffix_append TrimSuffix_no_suffix)

theorem outputFile_txt_or_append_witness:
  "outputFile ''book.txt'' = ''book.csv'' \<and> outputFile ''book.text'' = ''book.text.csv''"
proof -
  have "\<not> suffix ''.txt'' ''book.text''"
    by (simp add: suffix_def append_eq_Cons_conv)
  with outputFile_txt_or_append [of "''book''" "''book.text''"] show ?thesis by simp
qed

section \<open>Reading quotes back: the header skip\<close>

lemma rangeRecords_acc:
  "rangeRecords rs quotes =
     quotes @ map (\<lambda>r. \<lparr>Text = r ! 0, Author = r ! 1, ContextBefore = r ! 2, ContextAfter = r ! 3\<rparr>)
                (filter (\<lambda>r. 4 \<le> length r) rs)"
  by (induction rs arbitrary: quotes) (simp_all add: not_less)

text \<open>
  Claim C10. Once \<open>ReadAll\<close> has returned \<open>records\<close>, \<open>readQuotesFromCSV\<close> returns
  normally exactly when \<open>records\<close> is not empty: it then returns, in order, a Quote for
  each record after the first that has at least four fields, made of its first four
  fields, and skips the shorter ones. On an empty \<open>records\<close> the slice expression
  \<open>records[1:]\<close> is out of bounds and the function panics.
\<close>

theorem quotesOfRecords_header_skip:
  "(records \<noteq> [] \<longrightarrow>
      quotesOfRecords records =
        Inr (map (\<lambda>r. \<lparr>Text = r ! 0, Author = r ! 1, ContextBefore = r ! 2, ContextAfter = r ! 3\<rparr>)
               (filter (\<lambda>r. 4 \<le> length r) (tl records))))
   \<and> (records = [] \<longrightarrow> quotesOfRecords records = Inl SliceBoundsOutOfRange)"
proof (cases records)
  case Nil
  then show ?thesis by (simp add: quotesOfRecords_def slice_def)
next
  case (Cons h rest)
  then show ?thesis by (simp add: quotesOfRecords_def slice_def rangeRecords_acc)
qed

theorem quotesOfRecords_header_skip_witness:
  "quotesOfRecords [[''Quote'', ''Author'', ''Before'', ''After''], [''q1'', ''a1''],
                     [''q2'', ''a2'', ''b2'', ''c2'', ''extra'']]
     = Inr [\<lparr>Text = ''q2'', Author = ''a2'', ContextBefore = ''b2'', ContextAfter = ''c2''\<rparr>]
   \<and> quotesOfRecords [] = Inl SliceBoundsOutOfRange"
  using quotesOfRecords_header_skip
          [of "[[''Quote'', ''Author'', ''Before'', ''After''], [''q1'', ''a1''],
                [''q2'', ''a2'', ''b2'', ''c2'', ''extra'']]"]
        quotesOfRecords_header_skip [of "[]"]
  by simp

section \<open>The sentence splitter: evaluation and claims\<close>

subsection \<open>Evaluating the splitter on a given text\<close>

lemma loopBody_ascii:
  "byte c < 0x80 \<Longrightarrow> loopBody t i (byte c) st =
     (let st' = st\<lparr>sb := sb st @ [c], parenLevel := parenLevel st + bracketDelta c\<rparr>
      in if (c = CHR ''.'' \<or> c = CHR ''!'' \<or> c = CHR ''?'') \<and> parenLevel st' = 0
         then
           (if c = CHR ''.'' \<and> i + 1 < length t \<and> t ! (i + 1) \<noteq> CHR '' ''
               \<and> t ! (i + 1) \<noteq> CHR 0x0A
            then st'
            else \<lparr>sentences = sentences st @ filter (\<lambda>s. s \<noteq> []) [TrimSpace (sb st')],
                  sb = [], parenLevel = parenLevel st'\<rparr>)
         else st')"
  by (simp only: loopBody_level Encode_ascii bracketDelta_def of_char_eq_iff)

lemma loopBody_nonascii:
  "0x80 \<le> r \<Longrightarrow> loopBody t i r st = st\<lparr>sb := sb st @ EncodeRune r\<rparr>"
  by (simp add: loopBody_level runeDelta_nonascii)

lemma splitLoop_ascii:
  assumes "i < length t" and "byte (t ! i) < 0x80"
  shows "splitLoop t i st =
     splitLoop t (i + 1)
       (let c = t ! i;
            st' = st\<lparr>sb := sb st @ [c], parenLevel := parenLevel st + bracketDelta c\<rparr>
        in if (c = CHR ''.'' \<or> c = CHR ''!'' \<or> c = CHR ''?'') \<and> parenLevel st' = 0
           then
             (if c = CHR ''.'' \<and> i + 1 < length t \<and> t ! (i + 1) \<noteq> CHR '' ''
                 \<and> t ! (i + 1) \<noteq> CHR 0x0A
              then st'
              else \<lparr>sentences = sentences st @ filter (\<lambda>s. s \<noteq> []) [TrimSpace (sb st')],
                    sb = [], parenLevel = parenLevel st'\<rparr>)
           else st')"
proof -
  have "drop i t \<noteq> []" and "drop i t ! 0 = t ! i" using assms(1) by simp_all
  then have "DecodeRuneInString (drop i t) = (byte (t ! i), 1)"
    using assms(2) Decode_ascii [of "drop i t"] by simp
  then have "splitLoop t i st = splitLoop t (i + 1) (loopBody t i (byte (t ! i)) st)"
    using assms(1) by (simp add: splitLoop_step)
  then show ?thesis
    by (simp only: loopBody_ascii [OF assms(2)] Let_def)
qed

lemma Decode_two_roundtrip:
  assumes "2 \<le> length s" "0xC2 \<le> byte (s ! 0)" "byte (s ! 0) < 0xE0"
    "0x80 \<le> byte (s ! 1)" "byte (s ! 1) \<le> 0xBF"
  shows "snd (DecodeRuneInString s) = 2" and "0x80 \<le> fst (DecodeRuneInString s)"
    and "EncodeRune (fst (DecodeRuneInString s)) = [s ! 0, s ! 1]"
proof -
  have two: "DecodeRuneInString s = ((byte (s ! 0) - 192) * 64 + (byte (s ! 1) - 128), 2)"
    using assms by (rule Decode_two)
  then show "snd (DecodeRuneInString s) = 2" by simp
  from assms(1) have "s \<noteq> []" by auto
  then have "0x80 \<le> fst (DecodeRuneInString s)
      \<and> EncodeRune (fst (DecodeRuneInString s)) = take 2 s"
  proof (cases rule: Decode_shape)
    case ascii
    with assms(2) show ?thesis by simp
  next
    case invalid
    with two show ?thesis by simp
  next
    case (multi r w)
    with two have "w = 2" by simp
    with multi show ?thesis by simp
  qed
  then show "0x80 \<le> fst (DecodeRuneInString s)"
    and "EncodeRune (fst (DecodeRuneInString s)) = [s ! 0, s ! 1]"
    using assms(1) by (simp_all add: take_two)
qed

lemma splitLoop_two:
  assumes "i + 1 < length t" "0xC2 \<le> byte (t ! i)" "byte (t ! i) < 0xE0"
    "0x80 \<le> byte (t ! (i + 1))" "byte (t ! (i + 1)) \<le> 0xBF"
  shows "splitLoop t i st = splitLoop t (i + 2) (st\<lparr>sb := sb st @ [t ! i, t ! (i + 1)]\<rparr>)"
proof -
  have "2 \<le> length (drop i t)" "drop i t ! 0 = t ! i" "drop i t ! 1 = t ! (i + 1)"
    using assms(1) by simp_all
  with assms Decode_two_roundtrip [of "drop i t"]
  have "snd (DecodeRuneInString (drop i t)) = 2" "0x80 \<le> fst (DecodeRuneInString (drop i t))"
    "EncodeRune (fst (DecodeRuneInString (drop i t))) = [t ! i, t ! (i + 1)]"
    by simp_all
  then show ?thesis
    using assms(1) by (simp add: splitLoop_step loopBody_nonascii)
qed

lemma splitLoop_invalid_lead:
  assumes "i < length t" "0xF5 \<le> byte (t ! i)"
  shows "splitLoop t i st = splitLoop t (i + 1) (st\<lparr>sb := sb st @ [CHR 0xEF, CHR 0xBF, CHR 0xBD]\<rparr>)"
proof -
  have "drop i t \<noteq> []" and "drop i t ! 0 = t ! i" using assms(1) by simp_all
  with assms(2) have "DecodeRuneInString (drop i t) = (RuneError, 1)"
    by (intro Decode_invalid) simp_all
  moreover have "0x80 \<le> RuneError" by (simp add: RuneError_def)
  ultimately show ?thesis
    using assms(1) by (simp add: splitLoop_step loopBody_nonascii Encode_RuneError)
qed

lemma Decode_ascii_Cons: "byte c < 0x80 \<Longrightarrow> DecodeRuneInString (c # s) = (byte c, 1)"
  using Decode_ascii [of "c # s"] by simp

lemma Decode_two_Cons:
  "0xC2 \<le> byte c0 \<Longrightarrow> byte c0 < 0xE0 \<Longrightarrow> 0x80 \<le> byte c1 \<Longrightarrow> byte c1 \<le> 0xBF \<Longrightarrow>
   DecodeRuneInString (c0 # c1 # s) = ((byte c0 - 192) * 64 + (byte c1 - 128), 2)"
  using Decode_two [of "c0 # c1 # s"] by simp

lemma Decode_three_Cons:
  "0xE0 \<le> byte c0 \<Longrightarrow> byte c0 < 0xF0 \<Longrightarrow> acceptLo (byte c0) \<le> byte c1 \<Longrightarrow>
   byte c1 \<le> acceptHi (byte c0) \<Longrightarrow> 0x80 \<le> byte c2 \<Longrightarrow> byte c2 \<le> 0xBF \<Longrightarrow>
   DecodeRuneInString (c0 # c1 # c2 # s) =
     ((byte c0 - 224) * 4096 + (byte c1 - 128) * 64 + (byte c2 - 128), 3)"
  using Decode_three [of "c0 # c1 # c2 # s"] by simp

lemma indexFuncFrom_step:
  "i < length s \<Longrightarrow> indexFuncFrom s i f truth =
     (if f (fst (DecodeRuneInString (drop i s))) = truth then int i
      else indexFuncFrom s (i + snd (DecodeRuneInString (drop i s))) f truth)"
  by (subst indexFuncFrom.simps) (simp add: case_prod_beta)

lemma indexFuncFrom_done: "length s \<le> i \<Longrightarrow> indexFuncFrom s i f truth = - 1"
  by (subst indexFuncFrom.simps) simp

lemma lastIndexFunc_step:
  "0 < length s \<Longrightarrow> lastIndexFunc s f truth =
     (if f (fst (DecodeLastRuneInString s)) = truth
      then int (length s - snd (DecodeLastRuneInString s))
      else lastIndexFunc (take (length s - snd (DecodeLastRuneInString s)) s) f truth)"
  by (subst lastIndexFunc.simps) (simp add: case_prod_beta Let_def)

lemma lastIndexFunc_done: "lastIndexFunc [] f truth = - 1"
  by (subst lastIndexFunc.simps) simp

lemma backToRuneStart_step:
  "lim \<le> start \<Longrightarrow> backToRuneStart s start lim =
     (if RuneStart (s ! nat start) then start else backToRuneStart s (start - 1) lim)"
  by (subst backToRuneStart.simps) simp

lemma backToRuneStart_done: "start < lim \<Longrightarrow> backToRuneStart s start lim = start"
  by (subst backToRuneStart.simps) simp

lemmas eval_trim = TrimSpace_def TrimFunc_def TrimLeftFunc_def TrimRightFunc_def indexFunc_def
  indexFuncFrom_step indexFuncFrom_done lastIndexFunc_step lastIndexFunc_done
  backToRuneStart_step backToRuneStart_done DecodeLastRuneInString_def RuneStart_def RuneSelf_def
  Decode_ascii_Cons Decode_two_Cons Decode_three_Cons acceptLo_def acceptHi_def IsSpace_def Let_def

lemmas eval_split = splitSentences_def flushRest_def splitLoop_ascii splitLoop_two
  splitLoop_invalid_lead splitLoop_done bracketDelta_def runeDelta_def






lemma written_ascii_Cons: "byte c < 0x80 \<Longrightarrow> written (c # s) = c # written s"
  using written_step [of "c # s"] by (simp add: Decode_ascii_Cons Encode_ascii)

lemma ValidString_Nil: "ValidString []"
  by (subst ValidString.simps) simp

lemma ValidString_ascii_Cons: "byte c < 0x80 \<Longrightarrow> ValidString (c # s) = ValidString s"
  by (subst ValidString.simps) (simp add: Decode_ascii_Cons RuneError_def)

lemma ValidString_two_Cons:
  "0xC2 \<le> byte c0 \<Longrightarrow> byte c0 < 0xE0 \<Longrightarrow> 0x80 \<le> byte c1 \<Longrightarrow> byte c1 \<le> 0xBF \<Longrightarrow>
   ValidString (c0 # c1 # s) = ValidString s"
  by (subst ValidString.simps) (simp add: Decode_two_Cons)

lemma open_bracket_level_positive:
  assumes "bracketDelta c = 1" and "\<forall>b \<in> set rest. 0 \<le> bracketDelta b" and "0 < n"
  shows "0 < sum_list (map bracketDelta (take n (c # rest)))"
proof -
  from assms(3) obtain m where n: "n = Suc m" by (cases n) simp_all
  have "0 \<le> sum_list (map bracketDelta (take m rest))"
    using assms(2) by (intro sum_list_nonneg) (auto dest: in_set_takeD)
  with assms(1) show ?thesis by (simp add: n)
qed

text \<open>
  Claim C2. When the scan is at a period (byte index \<open>i\<close>) with the nesting counter at
  zero, and the next byte exists and is neither a space nor a newline, the period does
  not end a sentence: the loop goes on at the next byte with the same list of sentences
  and the same counter, the period appended to the pending buffer.
\<close>

theorem period_before_nonspace_does_not_split:
  assumes "i + 1 < length t" and "t ! i = CHR ''.''"
    and "t ! (i + 1) \<noteq> CHR '' ''" and "t ! (i + 1) \<noteq> CHR 0x0A"
    and "parenLevel st = 0"
  shows "splitLoop t i st = splitLoop t (i + 1) (st\<lparr>sb := sb st @ ''.''\<rparr>)"
proof -
  have "i < length t" and "byte (t ! i) < 0x80"
    using assms(1,2) by simp_all
  then have "splitLoop t i st =
      splitLoop t (i + 1) (st\<lparr>sb := sb st @ ''.'', parenLevel := 0\<rparr>)"
    using assms by (simp add: splitLoop_ascii bracketDelta_def runeDelta_def Let_def)
  also have "st\<lparr>sb := sb st @ ''.'', parenLevel := 0\<rparr> = st\<lparr>sb := sb st @ ''.''\<rparr>"
    using assms(5) by (cases st) simp
  finally show ?thesis .
qed

theorem period_before_nonspace_does_not_split_witness:
  "splitLoop example_abbreviation 2 \<lparr>sentences = [], sb = [CHR 0xD1, CHR 0x82], parenLevel = 0\<rparr>
     = splitLoop example_abbreviation 3
         \<lparr>sentences = [], sb = [CHR 0xD1, CHR 0x82, CHR ''.''], parenLevel = 0\<rparr>
   \<and> splitSentences example_abbreviation =
       [[CHR 0xD1, CHR 0x82, CHR ''.'', CHR 0xD0, CHR 0xB5, CHR ''.''],
        [CHR 0xD0, CHR 0xB4, CHR 0xD0, CHR 0xB0, CHR 0xD0, CHR 0xBB, CHR 0xD0, CHR 0xB5, CHR 0xD0,
         CHR 0xB5]]"
proof -
  have "splitSentences example_abbreviation =
       [[CHR 0xD1, CHR 0x82, CHR ''.'', CHR 0xD0, CHR 0xB5, CHR ''.''],
        [CHR 0xD0, CHR 0xB4, CHR 0xD0, CHR 0xB0, CHR 0xD0, CHR 0xBB, CHR 0xD0, CHR 0xB5, CHR 0xD0,
         CHR 0xB5]]"
    by (simp add: example_abbreviation_def eval_trim eval_split)
  then show ?thesis
    using period_before_nonspace_does_not_split
            [of 2 example_abbreviation "\<lparr>sentences = [], sb = [CHR 0xD1, CHR 0x82], parenLevel = 0\<rparr>"]
    by (simp add: example_abbreviation_def)
qed

text \<open>
  Claim C3. Let the scan be at byte index \<open>i\<close> in state \<open>st\<close>. If the nesting counter
  is non-zero after each of the remaining bytes (the counter after \<open>k - i\<close> more bytes
  is \<open>parenLevel st\<close> plus what those bytes add), then the rest of the loop emits no
  sentence: it only appends what it reads to the buffer, and the function returns the
  sentences found so far followed by the trimmed buffer, if that is not empty.
\<close>

theorem unbalanced_bracket_suppresses_splitting:
  assumes "\<forall>k. i < k \<and> k \<le> length t \<longrightarrow>
             parenLevel st + sum_list (map bracketDelta (take (k - i) (drop i t))) \<noteq> 0"
  shows "sentences (splitLoop t i st) = sentences st
       \<and> sb (splitLoop t i st) = sb st @ written (drop i t)
       \<and> flushRest (splitLoop t i st) =
           sentences st @ filter (\<lambda>s. s \<noteq> []) [TrimSpace (sb st @ written (drop i t))]"
proof -
  have "splitLoop t i st =
      st\<lparr>sb := sb st @ written (drop i t),
         parenLevel := parenLevel st + sum_list (map bracketDelta (drop i t))\<rparr>"
    using assms by (intro splitLoop_suppressed) blast
  then show ?thesis by (simp add: flushRest_eq)
qed

theorem unbalanced_bracket_suppresses_splitting_witness:
  "splitLoop ''A. (b. c! d? e'' 0 \<lparr>sentences = [], sb = [], parenLevel = 0\<rparr>
     = splitLoop ''A. (b. c! d? e'' 3 \<lparr>sentences = [''A.''], sb = '' '', parenLevel = 0\<rparr>
   \<and> flushRest (splitLoop ''A. (b. c! d? e'' 3 \<lparr>sentences = [''A.''], sb = '' '', parenLevel = 0\<rparr>)
       = [''A.'', ''(b. c! d? e'']"
proof -
  let ?t = "''A. (b. c! d? e''" and ?st = "\<lparr>sentences = [''A.''], sb = '' '', parenLevel = 0\<rparr>"
  have h: "\<forall>k. 3 < k \<and> k \<le> length ?t \<longrightarrow>
      parenLevel ?st + sum_list (map bracketDelta (take (k - 3) (drop 3 ?t))) \<noteq> 0"
  proof (intro allI impI)
    fix k :: nat
    assume "3 < k \<and> k \<le> length ?t"
    then have "0 < k - 3" by simp
    then have "0 < sum_list (map bracketDelta (take (k - 3) (CHR ''('' # ''b. c! d? e'')))"
      by (intro open_bracket_level_positive) (simp_all add: bracketDelta_def runeDelta_def)
    then show "parenLevel ?st + sum_list (map bracketDelta (take (k - 3) (drop 3 ?t))) \<noteq> 0"
      by simp
  qed
  have start: "splitLoop ?t 0 \<lparr>sentences = [], sb = [], parenLevel = 0\<rparr> = splitLoop ?t 3 ?st"
    by (simp add: eval_trim splitLoop_ascii splitLoop_done bracketDelta_def runeDelta_def)
  have "TrimSpace '' (b. c! d? e'' = ''(b. c! d? e''"
    by (simp add: eval_trim)
  with unbalanced_bracket_suppresses_splitting [OF h] start show ?thesis
    by (simp add: written_ascii_Cons written_Nil)
qed

text \<open>
  Claim C6, as stated for every input text, fails on text that is not valid UTF-8:
  \<open>range\<close> yields \<open>U+FFFD\<close> for an invalid byte and \<open>WriteRune\<close> writes its three-byte
  encoding, so the sentence returned for the one-byte text \<open>0xFF\<close> is not a segment
  of the input.
\<close>

theorem splitSentences_invalid_utf8_counterexample:
  "splitSentences [CHR 0xFF] = [[CHR 0xEF, CHR 0xBF, CHR 0xBD]]
   \<and> \<not> sublist [CHR 0xEF, CHR 0xBF, CHR 0xBD] [CHR 0xFF]"
proof -
  have "\<not> sublist [CHR 0xEF, CHR 0xBF, CHR 0xBD] [CHR 0xFF]"
    using sublist_length_le [of "[CHR 0xEF, CHR 0xBF, CHR 0xBD]" "[CHR 0xFF]"] by auto
  moreover have "splitSentences [CHR 0xFF] = [[CHR 0xEF, CHR 0xBF, CHR 0xBD]]"
    by (simp add: eval_trim eval_split)
  ultimately show ?thesis by blast
qed

text \<open>
  Claim C6, amended. For every text, what the loop reads (\<open>written t\<close>, the text with
  each invalid byte replaced by \<open>U+FFFD\<close>) is cut into consecutive segments, and the
  result is the list of the trimmed segments that are not empty, in that order. For a
  text that is valid UTF-8 these are segments of the text itself, and every returned
  sentence is a contiguous part of the text. No returned sentence is empty, and the
  empty text yields the empty list.
\<close>

theorem splitSentences_ordered_segments:
  "(\<exists>segs. concat segs = written t
        \<and> splitSentences t = filter (\<lambda>s. s \<noteq> []) (map TrimSpace segs))
   \<and> (ValidString t \<longrightarrow>
        (\<exists>segs. concat segs = t
           \<and> splitSentences t = filter (\<lambda>s. s \<noteq> []) (map TrimSpace segs))
        \<and> (\<forall>s \<in> set (splitSentences t). sublist s t))
   \<and> (\<forall>s \<in> set (splitSentences t). s \<noteq> [])
   \<and> splitSentences [] = []"
proof -
  obtain segs where segs: "concat segs = written t"
      "splitSentences t = filter (\<lambda>s. s \<noteq> []) (map TrimSpace segs)"
    using splitLoop_segments [of "\<lparr>sentences = [], sb = [], parenLevel = 0\<rparr>" 0 t]
    by (auto simp: splitSentences_def)
  have sub: "sublist s (written t)" if "s \<in> set (splitSentences t)" for s
  proof -
    from that segs(2) obtain seg where "seg \<in> set segs" "s = TrimSpace seg" by auto
    then have "sublist s seg" and "sublist seg (concat segs)"
      by (simp_all add: sublist_TrimSpace sublist_concat)
    then show ?thesis using segs(1) sublist_order.order_trans by metis
  qed
  have empty: "splitSentences [] = []"
    by (simp add: splitSentences_def splitLoop_done flushRest_def)
  from segs sub empty show ?thesis
    by (auto simp: written_valid)
qed

theorem splitSentences_ordered_segments_witness:
  "ValidString example_abbreviation
   \<and> (\<exists>segs. concat segs = example_abbreviation
         \<and> splitSentences example_abbreviation = filter (\<lambda>s. s \<noteq> []) (map TrimSpace segs))
   \<and> \<not> (\<exists>s \<in> set (splitSentences example_abbreviation). \<not> sublist s example_abbreviation)"
proof -
  have "ValidString example_abbreviation"
    by (simp add: example_abbreviation_def ValidString_two_Cons ValidString_ascii_Cons ValidString_Nil)
  with splitSentences_ordered_segments [of example_abbreviation] show ?thesis
    by blast
qed

text \<open>
  Claim C7. The example with a parenthetical yields exactly one sentence, the whole
  text: neither period inside the parentheses splits, and the period after the closing
  bracket ends the sentence inside the loop, leaving the buffer empty.
\<close>

theorem splitSentences_parenthetical_example:
  "splitSentences example_parenthetical = [example_parenthetical]
   \<and> splitLoop example_parenthetical 0 \<lparr>sentences = [], sb = [], parenLevel = 0\<rparr>
       = \<lparr>sentences = [example_parenthetical], sb = [], parenLevel = 0\<rparr>"
  by (simp add: example_parenthetical_def eval_trim eval_split)


end
